theory Spec2Isabelle
  imports
    Main
    "HOL-Library.Char_ord"
    "HOL-Library.List_Lexorder"
    "HOL-Library.Sublist"
    "HOL-Library.Multiset"
begin

section \<open>Strings and the standard-library operations the scanner calls\<close>

text \<open>
  A \<open>std::string\<close> is a list of bytes. \<open>std::endl\<close> writes a newline character.
  Strings are compared as \<open>std::string::operator<\<close> does: lexicographically on the byte
  values, a proper prefix being smaller (the order of \<open>List_Lexorder\<close> over \<open>Char_ord\<close>).
\<close>

definition endl :: string where
  "endl = [CHR 0x0A]"

definition quoted :: "string \<Rightarrow> string" where
  "quoted s = [CHR 0x22] @ s @ [CHR 0x22]"

text \<open>
  \<open>std::tolower\<close> in the default "C" locale (the program never calls \<open>setlocale\<close>):
  the 26 ASCII capitals go to their small letters, every other byte is unchanged.
\<close>

definition tolower :: "char \<Rightarrow> char" where
  "tolower c =
     (case map_of (zip ''ABCDEFGHIJKLMNOPQRSTUVWXYZ'' ''abcdefghijklmnopqrstuvwxyz'') c of
        Some l \<Rightarrow> l
      | None \<Rightarrow> c)"

text \<open>\<open>ToLower\<close>: \<open>std::transform\<close> of \<open>tolower\<close> over the whole string.\<close>

definition ToLower :: "string \<Rightarrow> string" where
  "ToLower str = map tolower str"

text \<open>
  \<open>std::string::find(needle)\<close> from position 0: the first position at which \<open>needle\<close>
  occurs, \<open>None\<close> standing for \<open>std::string::npos\<close>.
\<close>

fun string_find_from :: "nat \<Rightarrow> string \<Rightarrow> string \<Rightarrow> nat option" where
  "string_find_from pos [] needle = (if needle = [] then Some pos else None)"
| "string_find_from pos (c # rest) needle =
     (if prefix needle (c # rest) then Some pos
      else string_find_from (Suc pos) rest needle)"

definition string_find :: "string \<Rightarrow> string \<Rightarrow> nat option" where
  "string_find hay needle = string_find_from 0 hay needle"

text \<open>
  The loop \<open>while (std::getline(fileStream, line))\<close> over the characters the stream
  delivers: a line ends at a newline, which is dropped; characters after the last newline
  form a final line; at end of input with nothing extracted the read fails and the loop
  ends. \<open>read_lines line cs\<close> has \<open>line\<close> extracted so far and \<open>cs\<close> still unread.
\<close>

fun read_lines :: "string \<Rightarrow> string \<Rightarrow> string list" where
  "read_lines line [] = (if line = [] then [] else [line])"
| "read_lines line (c # cs) =
     (if c = CHR 0x0A then line # read_lines [] cs else read_lines (line @ [c]) cs)"

definition getlines :: "string \<Rightarrow> string list" where
  "getlines chars = read_lines [] chars"

text \<open>
  \<open>std::filesystem::path::filename\<close> and \<open>extension\<close> on the generic pathname format
  (directory separator \<open>/\<close>): the extension starts at the rightmost period of the filename;
  the filenames \<open>.\<close> and \<open>..\<close> have none, nor has a filename whose only period is its
  first character.
\<close>

definition filename :: "string \<Rightarrow> string" where
  "filename p = rev (takeWhile (\<lambda>c. c \<noteq> CHR ''/'') (rev p))"

definition extension :: "string \<Rightarrow> string" where
  "extension p =
     (let f = filename p;
          e = rev (takeWhile (\<lambda>c. c \<noteq> CHR ''.'') (rev f))
      in if f = ''.'' \<or> f = ''..'' then []
         else if length e = length f then []
         else if Suc (length e) = length f then []
         else CHR ''.'' # e)"

text \<open>
  \<open>std::set<std::string>\<close>: the elements in ascending order, each once.
\<close>

fun set_insert :: "string \<Rightarrow> string list \<Rightarrow> string list" where
  "set_insert k [] = [k]"
| "set_insert k (x # xs) =
     (if k < x then k # x # xs
      else if k = x then x # xs
      else x # set_insert k xs)"

text \<open>
  \<open>std::map<std::string, std::vector<std::string>>\<close>: the pairs in ascending key order.
  \<open>map_push_back k v m\<close> is \<open>m[k].push_back(v)\<close>: \<open>operator[]\<close> inserts an empty
  vector under a key that is absent.
\<close>

type_synonym match_index = "(string \<times> string list) list"

fun map_push_back :: "string \<Rightarrow> string \<Rightarrow> match_index \<Rightarrow> match_index" where
  "map_push_back k v [] = [(k, [v])]"
| "map_push_back k v ((k', vs) # m) =
     (if k < k' then (k, [v]) # (k', vs) # m
      else if k = k' then (k', vs @ [v]) # m
      else (k', vs) # map_push_back k v m)"

section \<open>The host: file system and streams\<close>

text \<open>
  What \<open>std::filesystem::recursive_directory_iterator\<close> surfaces for one entry: its path
  string, the answer of \<open>is_regular_file()\<close>, and what \<open>std::ifstream\<close> gives for it:
  \<open>None\<close> when the stream fails to open, otherwise the characters it delivers.
\<close>

record dir_entry =
  path :: string
  is_regular_file :: bool
  content :: "string option"

text \<open>The two handlers of the \<open>try\<close> block, with the text of \<open>e.what()\<close>.\<close>

datatype fs_exception = Filesystem_error string | Std_exception string

text \<open>
  The host answers \<open>std::filesystem::is_directory\<close> and \<open>std::filesystem::absolute\<close>,
  gives for a directory the entries the recursive iteration surfaces, in order, and the
  exception that ends the iteration if one is thrown, and says whether \<open>std::ofstream\<close>
  opens a given output file.
\<close>

record host =
  is_directory :: "string \<Rightarrow> bool"
  absolute :: "string \<Rightarrow> string"
  recursive_directory_iterator :: "string \<Rightarrow> dir_entry list \<times> fs_exception option"
  ofstream_opens :: "string \<Rightarrow> bool"

section \<open>The two programs\<close>

text \<open>
  \<open>src/Html Scanner/Html Scanner.cpp\<close> and \<open>src/HtmlScanner/Html Scanner.cpp\<close> are the same
  text but for the substring test (with and without \<open>ToLower\<close>) and the \<open>[DEBUG]\<close> lines
  on standard output, which only the first one prints.
\<close>

datatype variant = CaseInsensitive | CaseSensitiveDraft

fun line_contains :: "variant \<Rightarrow> string \<Rightarrow> string \<Rightarrow> bool" where
  "line_contains CaseInsensitive line keyword =
     (string_find (ToLower line) (ToLower keyword) \<noteq> None)"
| "line_contains CaseSensitiveDraft line keyword =
     (string_find line keyword \<noteq> None)"

fun debug_lines :: "variant \<Rightarrow> string list \<Rightarrow> string list" where
  "debug_lines CaseInsensitive ls = ls"
| "debug_lines CaseSensitiveDraft ls = []"

subsection \<open>Argument parsing\<close>

definition PrintUsage :: "string \<Rightarrow> string list" where
  "PrintUsage programName =
     [''Usage: '' @ programName @ '' <directory_to_scan> <keyword1> [keyword2] [keyword3] ...'',
      ''Example: '' @ programName @ '' '' @ quoted (''C:'' @ [CHR 0x5C] @ ''MyWebsite'')
         @ '' form gallery table'',
      ''An optional output file can be specified with the /o flag.'',
      ''Example with output file: '' @ programName @ '' ''
         @ quoted (''C:'' @ [CHR 0x5C] @ ''MyWebsite'') @ '' /o '' @ quoted ''results.txt''
         @ '' form gallery'']"

record parse_state =
  scanDirectory :: string
  outputFileName :: string
  "keywords" :: "string list"
  outputFlagFound :: bool

definition parse_init :: parse_state where
  "parse_init =
     \<lparr>scanDirectory = [], outputFileName = ''output.txt'', keywords = [],
      outputFlagFound = False\<rparr>"

text \<open>One iteration of the parsing loop for an index \<open>i \<ge> 2\<close>.\<close>

definition parse_arg :: "parse_state \<Rightarrow> string \<Rightarrow> parse_state" where
  "parse_arg st arg =
     (if outputFlagFound st then st\<lparr>outputFileName := arg, outputFlagFound := False\<rparr>
      else if arg = ''/o'' \<or> arg = ''/O'' then st\<lparr>outputFlagFound := True\<rparr>
      else st\<lparr>keywords := keywords st @ [arg]\<rparr>)"

text \<open>
  The whole loop over \<open>argValues[1 .. argCount - 1]\<close>: index 1 is the scan directory.
\<close>

definition parse_args :: "string list \<Rightarrow> parse_state" where
  "parse_args args =
     (case args of
        [] \<Rightarrow> parse_init
      | dir # toks \<Rightarrow> foldl parse_arg (parse_init\<lparr>scanDirectory := dir\<rparr>) toks)"

subsection \<open>Scanning\<close>

text \<open>The \<open>getline\<close> loop with its inner loop over the keywords.\<close>

definition keywordsFoundInFile :: "variant \<Rightarrow> string list \<Rightarrow> string list \<Rightarrow> string list" where
  "keywordsFoundInFile v kws lines =
     foldl (\<lambda>found line.
              foldl (\<lambda>found' keyword.
                       if line_contains v line keyword then set_insert keyword found'
                       else found')
                    found kws)
           [] lines"

record scan_state =
  foundFilesByKeyword :: match_index
  cout :: "string list"
  cerr :: "string list"

text \<open>
  \<open>cout\<close> and \<open>cerr\<close> hold the texts written, one element for each \<open>std::endl\<close>.
  The loop that records a file under each keyword found in it:
\<close>

definition record_found :: "string \<Rightarrow> scan_state \<Rightarrow> string list \<Rightarrow> scan_state" where
  "record_found p st found =
     foldl (\<lambda>s foundKeyword.
              s\<lparr>foundFilesByKeyword := map_push_back foundKeyword p (foundFilesByKeyword s),
                cout := cout s @ [''Found '' @ quoted foundKeyword @ '' in: '' @ p]\<rparr>)
           st found"

text \<open>The body of the loop over the directory entries.\<close>

definition scan_entry :: "variant \<Rightarrow> string list \<Rightarrow> scan_state \<Rightarrow> dir_entry \<Rightarrow> scan_state" where
  "scan_entry v kws st entry =
     (if is_regular_file entry
         \<and> (extension (path entry) = ''.html'' \<or> extension (path entry) = ''.htm'')
      then
        (let st1 = st\<lparr>cout := cout st @ debug_lines v [''[DEBUG] Scanning file: '' @ path entry]\<rparr>
         in case content entry of
              None \<Rightarrow> st1\<lparr>cerr := cerr st1 @ [''Warning: Could not open file: '' @ path entry]\<rparr>
            | Some chars \<Rightarrow>
                record_found (path entry) st1 (keywordsFoundInFile v kws (getlines chars)))
      else st)"

text \<open>
  The \<open>try\<close> block: the entries surfaced are processed in order; an exception ends the
  loop, is logged, and leaves what was collected so far.
\<close>

definition scan :: "variant \<Rightarrow> string list \<Rightarrow> scan_state \<Rightarrow> dir_entry list \<times> fs_exception option \<Rightarrow> scan_state" where
  "scan v kws st walk =
     (case walk of (entries, failure) \<Rightarrow>
        (let st' = foldl (scan_entry v kws) st entries
         in case failure of
              None \<Rightarrow> st'
            | Some (Filesystem_error what) \<Rightarrow> st'\<lparr>cerr := cerr st' @ [''Filesystem error: '' @ what]\<rparr>
            | Some (Std_exception what) \<Rightarrow> st'\<lparr>cerr := cerr st' @ [''An error occurred: '' @ what]\<rparr>))"

subsection \<open>The report\<close>

definition report_section :: "string \<times> string list \<Rightarrow> string" where
  "report_section pair =
     (case pair of (keyword, files) \<Rightarrow>
        ''\<newline>=================================================='' @ endl
        @ ''Files containing keyword: '' @ quoted keyword @ endl
        @ ''=================================================='' @ endl
        @ concat (map (\<lambda>filePath. filePath @ endl) files))"

definition write_report :: "string \<Rightarrow> match_index \<Rightarrow> string" where
  "write_report absdir idx =
     ''Scan results for directory: '' @ absdir @ endl
     @ (if idx = [] then ''\<newline>No files were found containing the specified keywords.'' @ endl
        else concat (map report_section idx))"

subsection \<open>\<open>main\<close>\<close>

text \<open>
  What a run leaves: the exit code, the texts on the two streams, and the output file
  (name and contents) if \<open>std::ofstream\<close> opened it.
\<close>

record outcome =
  exit_code :: int
  stdout :: "string list"
  stderr :: "string list"
  output_file :: "(string \<times> string) option"

fun looking_for :: "string list \<Rightarrow> string" where
  "looking_for [] = []"
| "looking_for [k] = quoted k"
| "looking_for (k # ks) = quoted k @ '', '' @ looking_for ks"

definition banner :: "variant \<Rightarrow> host \<Rightarrow> parse_state \<Rightarrow> string list" where
  "banner v h cfg =
     debug_lines v
       [''[DEBUG] Directory to scan: '' @ scanDirectory cfg,
        ''[DEBUG] Output file: '' @ outputFileName cfg,
        ''[DEBUG] Keywords to find: '' @ concat (map (\<lambda>k. quoted k @ '' '') (keywords cfg)),
        ''--------------------------------'']
     @ [''Scanning directory: '' @ absolute h (scanDirectory cfg),
        ''Output file: '' @ outputFileName cfg,
        ''Looking for keywords: '' @ looking_for (keywords cfg),
        '''']"

text \<open>
  \<open>main v h programName args\<close>: \<open>programName\<close> is \<open>argValues[0]\<close>, \<open>args\<close> the arguments
  after it, so \<open>argCount = 1 + length args\<close>.
\<close>

definition main :: "variant \<Rightarrow> host \<Rightarrow> string \<Rightarrow> string list \<Rightarrow> outcome" where
  "main v h programName args =
     (if 1 + length args < 3 then
        \<lparr>exit_code = 1, stdout = [], stderr = PrintUsage programName, output_file = None\<rparr>
      else
        (let cfg = parse_args args in
         if scanDirectory cfg = [] \<or> \<not> is_directory h (scanDirectory cfg) then
           \<lparr>exit_code = 1, stdout = [],
            stderr = ''Error: The first argument must be a valid directory.'' # PrintUsage programName,
            output_file = None\<rparr>
         else if keywords cfg = [] then
           \<lparr>exit_code = 1, stdout = [],
            stderr = ''Error: No keywords were provided.'' # PrintUsage programName,
            output_file = None\<rparr>
         else if outputFlagFound cfg then
           \<lparr>exit_code = 1, stdout = [],
            stderr = ''Error: /o flag specified without a filename.'' # PrintUsage programName,
            output_file = None\<rparr>
         else
           (let st = scan v (keywords cfg)
                       \<lparr>foundFilesByKeyword = [], cout = banner v h cfg, cerr = []\<rparr>
                       (recursive_directory_iterator h (scanDirectory cfg))
            in if \<not> ofstream_opens h (outputFileName cfg) then
                 \<lparr>exit_code = 1, stdout = cout st,
                  stderr = cerr st @ [''Error: Could not open output file for writing: ''
                                       @ outputFileName cfg],
                  output_file = None\<rparr>
               else
                 \<lparr>exit_code = 0,
                  stdout = cout st @ [''\<newline>Scan complete. Results saved to '' @ outputFileName cfg],
                  stderr = cerr st,
                  output_file =
                    Some (outputFileName cfg,
                          write_report (absolute h (scanDirectory cfg)) (foundFilesByKeyword st))\<rparr>)))"

section \<open>Notions of the specification\<close>

text \<open>
  A FileCandidate: a regular file whose extension is exactly \<open>.html\<close> or \<open>.htm\<close>.
\<close>

definition html_candidate :: "dir_entry \<Rightarrow> bool" where
  "html_candidate e \<longleftrightarrow>
     is_regular_file e \<and> (extension (path e) = ''.html'' \<or> extension (path e) = ''.htm'')"

text \<open>
  ASCII lower case: the bytes from \<open>A\<close> to \<open>Z\<close> are moved up by 32, every other byte
  stays.
\<close>

definition ascii_lower :: "char \<Rightarrow> char" where
  "ascii_lower c =
     (if CHR ''A'' \<le> c \<and> c \<le> CHR ''Z'' then char_of (of_char c + (32::nat)) else c)"

text \<open>
  The lines of a text: the pieces between its newline characters, without a last piece
  that is empty (a text that ends in a newline, or the empty text, has no line after it).
\<close>

fun split_lines :: "string \<Rightarrow> string list" where
  "split_lines [] = [[]]"
| "split_lines (c # cs) =
     (if c = CHR 0x0A then [] # split_lines cs
      else (c # hd (split_lines cs)) # tl (split_lines cs))"

definition file_lines :: "string \<Rightarrow> string list" where
  "file_lines chars =
     (if last (split_lines chars) = [] then butlast (split_lines chars) else split_lines chars)"

text \<open>
  A keyword occurs in a line when it is a substring of it, both folded to ASCII lower
  case for the first program and both as they are for the draft. A file matches a keyword
  when it opens and the keyword occurs in one of its lines;
  \<open>files_containing\<close> are the candidates that do, in traversal order, and
  \<open>expected_index\<close> has one key, in ascending order, for each keyword that some
  candidate matches.
\<close>

fun keyword_in_line :: "variant \<Rightarrow> string \<Rightarrow> string \<Rightarrow> bool" where
  "keyword_in_line CaseInsensitive l k = sublist (map ascii_lower k) (map ascii_lower l)"
| "keyword_in_line CaseSensitiveDraft l k = sublist k l"

definition file_matches :: "variant \<Rightarrow> dir_entry \<Rightarrow> string \<Rightarrow> bool" where
  "file_matches v e k =
     (case content e of
        None \<Rightarrow> False
      | Some chars \<Rightarrow> list_ex (\<lambda>l. keyword_in_line v l k) (file_lines chars))"

definition files_containing :: "variant \<Rightarrow> dir_entry list \<Rightarrow> string \<Rightarrow> string list" where
  "files_containing v entries k =
     map path (filter (\<lambda>e. html_candidate e \<and> file_matches v e k) entries)"

definition expected_index :: "variant \<Rightarrow> string list \<Rightarrow> dir_entry list \<Rightarrow> match_index" where
  "expected_index v kws entries =
     map (\<lambda>k. (k, files_containing v entries k))
       (filter (\<lambda>k. files_containing v entries k \<noteq> []) (sorted_list_of_set (set kws)))"

text \<open>The files listed under a key of an index, none if the key is absent.\<close>

definition files_under :: "match_index \<Rightarrow> string \<Rightarrow> string list" where
  "files_under idx k = (case map_of idx k of None \<Rightarrow> [] | Some fs \<Rightarrow> fs)"

text \<open>
  The arguments pass the four checks of \<open>main\<close>, in the order in which it makes them.
\<close>

definition accepted :: "host \<Rightarrow> string list \<Rightarrow> bool" where
  "accepted h args \<longleftrightarrow>
     2 \<le> length args
     \<and> scanDirectory (parse_args args) \<noteq> []
     \<and> is_directory h (scanDirectory (parse_args args))
     \<and> keywords (parse_args args) \<noteq> []
     \<and> \<not> outputFlagFound (parse_args args)"

text \<open>
  The grammar of the tokens after the directory, read pair by pair: a token \<open>/o\<close> or
  \<open>/O\<close> that is not itself the name of a flag before it starts a pair and takes the next
  token as its name. \<open>output_names\<close> are the names of the pairs in order,
  \<open>keyword_tokens\<close> the tokens outside the pairs, and \<open>dangling_flag\<close> says that
  the last token is a flag with no name after it.
\<close>

definition is_output_flag :: "string \<Rightarrow> bool" where
  "is_output_flag t \<longleftrightarrow> t = ''/o'' \<or> t = ''/O''"

fun output_names :: "string list \<Rightarrow> string list" where
  "output_names (t # n # rest) =
     (if is_output_flag t then n # output_names rest else output_names (n # rest))"
| "output_names _ = []"

fun keyword_tokens :: "string list \<Rightarrow> string list" where
  "keyword_tokens (t # n # rest) =
     (if is_output_flag t then keyword_tokens rest else t # keyword_tokens (n # rest))"
| "keyword_tokens [t] = (if is_output_flag t then [] else [t])"
| "keyword_tokens [] = []"

fun dangling_flag :: "string list \<Rightarrow> bool" where
  "dangling_flag (t # n # rest) =
     (if is_output_flag t then dangling_flag rest else dangling_flag (n # rest))"
| "dangling_flag [t] = is_output_flag t"
| "dangling_flag [] = False"

text \<open>
  The report as the format section of the specification words it, line by line, the
  keyword between double quotes; every line is ended by a newline.
\<close>

definition expected_report_lines :: "string \<Rightarrow> match_index \<Rightarrow> string list" where
  "expected_report_lines absdir idx =
     (''Scan results for directory: '' @ absdir)
     # (if idx = [] then ['''', ''No files were found containing the specified keywords.'']
        else concat (map (\<lambda>(keyword, files).
                       ['''', replicate 50 CHR ''='',
                        ''Files containing keyword: '' @ [CHR 0x22] @ keyword @ [CHR 0x22],
                        replicate 50 CHR ''=''] @ files) idx))"

definition terminated_lines :: "string list \<Rightarrow> string" where
  "terminated_lines ls = concat (map (\<lambda>l. l @ [CHR 0x0A]) ls)"

text \<open>
  A small site for concrete runs: two pages that mention the keywords in mixed case, one
  of them on several lines, a text file, a page with a capital extension, and a page
  that cannot be opened.
\<close>

definition site_entries :: "dir_entry list" where
  "site_entries =
     [\<lparr>path = ''./site/a.html'', is_regular_file = True,
       content = Some ''<p>gallery</p>\<newline>''\<rparr>,
      \<lparr>path = ''./site/sub'', is_regular_file = False, content = None\<rparr>,
      \<lparr>path = ''./site/sub/b.htm'', is_regular_file = True,
       content = Some ''<Form>\<newline>GALLERY\<newline><form>\<newline></FORM>''\<rparr>,
      \<lparr>path = ''./site/c.txt'', is_regular_file = True,
       content = Some ''form gallery\<newline>''\<rparr>,
      \<lparr>path = ''./site/INDEX.HTML'', is_regular_file = True,
       content = Some ''<form>\<newline>''\<rparr>,
      \<lparr>path = ''./site/locked.html'', is_regular_file = True, content = None\<rparr>]"

text \<open>A site whose only page is all in lower case.\<close>

definition plain_host :: host where
  "plain_host =
     \<lparr>is_directory = (\<lambda>d. d = ''./plain''),
      absolute = (\<lambda>d. ''/srv/'' @ d),
      recursive_directory_iterator =
        (\<lambda>d. ([\<lparr>path = ''./plain/index.html'', is_regular_file = True,
                  content = Some ''<form>\<newline><p>gallery</p>\<newline>''\<rparr>], None)),
      ofstream_opens = (\<lambda>f. True)\<rparr>"

definition site_host :: host where
  "site_host =
     \<lparr>is_directory = (\<lambda>d. d = ''./site''),
      absolute = (\<lambda>d. ''/srv/'' @ d),
      recursive_directory_iterator = (\<lambda>d. (site_entries, None)),
      ofstream_opens = (\<lambda>f. f \<noteq> ''/readonly/out.txt'')\<rparr>"

section \<open>Library facts: substring search, ordered containers\<close>

lemma string_find_from_iff:
  "string_find_from pos hay needle \<noteq> None \<longleftrightarrow> sublist needle hay"
  by (induction hay arbitrary: pos) (auto simp: sublist_Cons_right)

lemma string_find_iff: "string_find hay needle \<noteq> None \<longleftrightarrow> sublist needle hay"
  using string_find_from_iff [of 0 hay needle] by (simp only: string_find_def)

lemma tolower_ascii: "tolower c = ascii_lower c"
proof -
  have "\<forall>c. tolower c = ascii_lower c"
    by code_simp
  then show ?thesis ..
qed

lemma ToLower_ascii: "ToLower str = map ascii_lower str"
  by (simp add: ToLower_def tolower_ascii)

lemma line_contains_keyword_in_line: "line_contains v l k \<longleftrightarrow> keyword_in_line v l k"
  using string_find_iff [of "ToLower l" "ToLower k"] string_find_iff [of l k]
  by (cases v) (simp_all only: line_contains.simps keyword_in_line.simps ToLower_ascii)

lemma split_lines_nonempty: "split_lines cs \<noteq> []"
  by (cases cs) simp_all

lemma read_lines_split:
  "read_lines line cs =
     (if last ((line @ hd (split_lines cs)) # tl (split_lines cs)) = []
      then butlast ((line @ hd (split_lines cs)) # tl (split_lines cs))
      else (line @ hd (split_lines cs)) # tl (split_lines cs))"
proof (induction cs arbitrary: line)
  case Nil
  then show ?case by simp
next
  case (Cons c cs)
  then show ?case
    using split_lines_nonempty [of cs]
    by (cases "split_lines cs") auto
qed

lemma getlines_file_lines: "getlines chars = file_lines chars"
  using split_lines_nonempty [of chars]
  by (cases "split_lines chars") (simp_all add: getlines_def file_lines_def read_lines_split)

lemma set_set_insert: "set (set_insert k xs) = insert k (set xs)"
  by (induction xs) auto

lemma sorted_set_insert: "sorted_wrt (<) xs \<Longrightarrow> sorted_wrt (<) (set_insert k xs)"
  by (induction xs) (auto simp: set_set_insert)

lemma set_found_line:
  "set (foldl (\<lambda>found' keyword. if P keyword then set_insert keyword found' else found') found kws)
     = set found \<union> {k \<in> set kws. P k}"
  by (induction kws arbitrary: found) (auto simp: set_set_insert)

lemma sorted_found_line:
  "sorted_wrt (<) found \<Longrightarrow>
   sorted_wrt (<) (foldl (\<lambda>found' keyword. if P keyword then set_insert keyword found' else found') found kws)"
  by (induction kws arbitrary: found) (auto simp: sorted_set_insert)

lemma set_found_lines:
  "set (foldl (\<lambda>found line.
              foldl (\<lambda>found' keyword.
                       if line_contains v line keyword then set_insert keyword found'
                       else found')
                    found kws) found0 lines)
    = set found0 \<union> {k \<in> set kws. \<exists>l \<in> set lines. line_contains v l k}"
  by (induction lines arbitrary: found0) (auto simp: set_found_line)

lemma sorted_found_lines:
  "sorted_wrt (<) found0 \<Longrightarrow> sorted_wrt (<) (foldl (\<lambda>found line.
              foldl (\<lambda>found' keyword.
                       if line_contains v line keyword then set_insert keyword found'
                       else found')
                    found kws) found0 lines)"
  by (induction lines arbitrary: found0) (auto simp: sorted_found_line)

lemma set_keywordsFoundInFile:
  "set (keywordsFoundInFile v kws lines) = {k \<in> set kws. \<exists>l \<in> set lines. line_contains v l k}"
  by (simp add: keywordsFoundInFile_def set_found_lines)

lemma sorted_keywordsFoundInFile: "sorted_wrt (<) (keywordsFoundInFile v kws lines)"
  by (simp add: keywordsFoundInFile_def sorted_found_lines)

lemma distinct_keywordsFoundInFile: "distinct (keywordsFoundInFile v kws lines)"
  using sorted_keywordsFoundInFile strict_sorted_iff by blast

lemma keys_map_push_back: "fst ` set (map_push_back k v m) = insert k (fst ` set m)"
  by (induction k v m rule: map_push_back.induct) auto

lemma sorted_map_push_back:
  "sorted_wrt (<) (map fst m) \<Longrightarrow> sorted_wrt (<) (map fst (map_push_back k v m))"
proof (induction k v m rule: map_push_back.induct)
  case (1 k v)
  then show ?case by simp
next
  case (2 k v k' vs m)
  have "fst ` set (map_push_back k v m) = insert k (fst ` set m)"
    by (rule keys_map_push_back)
  with 2 show ?case by (auto simp: image_iff) 
qed

lemma map_of_map_push_back:
  "sorted_wrt (<) (map fst m) \<Longrightarrow>
   map_of (map_push_back k v m) =
     (map_of m)(k \<mapsto> (case map_of m k of None \<Rightarrow> [] | Some vs \<Rightarrow> vs) @ [v])"
proof (induction m)
  case Nil
  then show ?case by simp
next
  case (Cons a m)
  obtain k' vs where a: "a = (k', vs)" by (cases a)
  show ?case
  proof (cases "k < k'")
    case True
    then have "map_of m k = None" using Cons.prems a
      by (force simp: map_of_eq_None_iff)
    with True a show ?thesis by auto
  next
    case False
    then show ?thesis using Cons a by (auto simp: fun_eq_iff)
  qed
qed

section \<open>The index the scanner builds\<close>

lemma index_record_found:
  "foundFilesByKeyword (record_found p st found) =
     foldl (\<lambda>m k. map_push_back k p m) (foundFilesByKeyword st) found"
  unfolding record_found_def
  by (induction found arbitrary: st) simp_all

lemma sorted_push_all:
  "sorted_wrt (<) (map fst m) \<Longrightarrow>
   sorted_wrt (<) (map fst (foldl (\<lambda>m k. map_push_back k p m) m found))"
  by (induction found arbitrary: m) (simp_all add: sorted_map_push_back)

lemma map_of_push_all:
  "sorted_wrt (<) (map fst m) \<Longrightarrow> distinct found \<Longrightarrow>
   map_of (foldl (\<lambda>m k. map_push_back k p m) m found) k =
     (if k \<in> set found then Some (files_under m k @ [p]) else map_of m k)"
proof (induction found arbitrary: m)
  case Nil
  then show ?case by simp
next
  case (Cons a found)
  have s: "sorted_wrt (<) (map fst (map_push_back a p m))"
    using Cons.prems(1) by (rule sorted_map_push_back)
  have d: "distinct found" and a: "a \<notin> set found" using Cons.prems(2) by simp_all
  show ?case
    using Cons.IH [OF s d] a
    by (auto simp: map_of_map_push_back [OF Cons.prems(1)] files_under_def)
qed

lemma index_scan_entry:
  "foundFilesByKeyword (scan_entry v kws st e) =
     (if html_candidate e then
        (case content e of
           None \<Rightarrow> foundFilesByKeyword st
         | Some chars \<Rightarrow>
             foldl (\<lambda>m k. map_push_back k (path e) m) (foundFilesByKeyword st)
               (keywordsFoundInFile v kws (getlines chars)))
      else foundFilesByKeyword st)"
  by (auto simp: scan_entry_def html_candidate_def index_record_found Let_def split: option.splits)

lemma sorted_scan_entry:
  "sorted_wrt (<) (map fst (foundFilesByKeyword st)) \<Longrightarrow>
   sorted_wrt (<) (map fst (foundFilesByKeyword (scan_entry v kws st e)))"
  by (simp add: index_scan_entry sorted_push_all split: option.splits)

lemma map_of_scan_entry:
  assumes "sorted_wrt (<) (map fst (foundFilesByKeyword st))"
  shows "map_of (foundFilesByKeyword (scan_entry v kws st e)) k =
     (if k \<in> set kws \<and> html_candidate e \<and> file_matches v e k
      then Some (files_under (foundFilesByKeyword st) k @ [path e])
      else map_of (foundFilesByKeyword st) k)"
  by (auto simp: index_scan_entry map_of_push_all [OF assms distinct_keywordsFoundInFile]
        set_keywordsFoundInFile file_matches_def list_ex_iff getlines_file_lines
        line_contains_keyword_in_line split: option.splits)

lemma sorted_scan_entries:
  "sorted_wrt (<) (map fst (foundFilesByKeyword st)) \<Longrightarrow>
   sorted_wrt (<) (map fst (foundFilesByKeyword (foldl (scan_entry v kws) st entries)))"
  by (induction entries arbitrary: st) (simp_all add: sorted_scan_entry)

lemma files_containing_snoc:
  "files_containing v (es @ [e]) k =
     files_containing v es k @ (if html_candidate e \<and> file_matches v e k then [path e] else [])"
  by (simp add: files_containing_def)

lemma map_of_scan_entries:
  assumes "foundFilesByKeyword st = []"
  shows "map_of (foundFilesByKeyword (foldl (scan_entry v kws) st entries)) k =
     (if k \<in> set kws \<and> files_containing v entries k \<noteq> []
      then Some (files_containing v entries k) else None)"
proof (induction entries rule: rev_induct)
  case Nil
  then show ?case by (simp add: assms files_containing_def)
next
  case (snoc e es)
  have s: "sorted_wrt (<) (map fst (foundFilesByKeyword (foldl (scan_entry v kws) st es)))"
    by (rule sorted_scan_entries) (simp add: assms)
  show ?case
    using snoc
    by (simp add: map_of_scan_entry [OF s] files_containing_snoc files_under_def)
qed

lemma sorted_alist_rebuild:
  assumes "distinct (map fst xs)"
  shows "map (\<lambda>k. (k, the (map_of xs k))) (map fst xs) = xs"
proof -
  have "(fst p, the (map_of xs (fst p))) = p" if "p \<in> set xs" for p
  proof -
    have "map_of xs (fst p) = Some (snd p)"
      using assms that by (intro map_of_is_SomeI) simp_all
    then show ?thesis by simp
  qed
  then have "map (\<lambda>p. (fst p, the (map_of xs (fst p)))) xs = xs"
    by (intro map_idI)
  then show ?thesis by (simp add: comp_def)
qed

lemma sorted_alist_unique:
  assumes "sorted_wrt (<) (map fst xs)" and "sorted_wrt (<) (map fst ys)"
    and "map_of xs = map_of ys"
  shows "xs = (ys :: ('a::linorder \<times> 'b) list)"
proof -
  have dx: "distinct (map fst xs)" and dy: "distinct (map fst ys)"
    using assms(1,2) strict_sorted_iff by blast+
  have "set (map fst xs) = set (map fst ys)"
    using assms(3) by (metis dom_map_of_conv_image_fst set_map)
  then have keys: "map fst xs = map fst ys"
    using assms(1,2) by (metis strict_sorted_equal)
  have "xs = map (\<lambda>k. (k, the (map_of xs k))) (map fst xs)"
    using sorted_alist_rebuild [OF dx] by (rule sym)
  also have "\<dots> = map (\<lambda>k. (k, the (map_of ys k))) (map fst ys)"
    by (simp only: keys assms(3))
  also have "\<dots> = ys"
    using dy by (rule sorted_alist_rebuild)
  finally show ?thesis .
qed

lemma map_of_tabulate:
  "map_of (map (\<lambda>k. (k, f k)) ks) k = (if k \<in> set ks then Some (f k) else None)"
  by (induction ks) auto

lemma sorted_expected_index: "sorted_wrt (<) (map fst (expected_index v kws entries))"
proof -
  have "map fst (expected_index v kws entries) =
          filter (\<lambda>k. files_containing v entries k \<noteq> []) (sorted_list_of_set (set kws))"
    by (simp add: expected_index_def comp_def)
  moreover have "sorted_wrt (<) (sorted_list_of_set (set kws))"
    by (simp add: strict_sorted_iff)
  ultimately show ?thesis by (simp add: sorted_wrt_filter)
qed

lemma map_of_expected_index:
  "map_of (expected_index v kws entries) k =
     (if k \<in> set kws \<and> files_containing v entries k \<noteq> []
      then Some (files_containing v entries k) else None)"
  by (simp add: expected_index_def map_of_tabulate)

lemma scan_entries_index:
  assumes "foundFilesByKeyword st = []"
  shows "foundFilesByKeyword (foldl (scan_entry v kws) st entries) = expected_index v kws entries"
proof (rule sorted_alist_unique)
  show "sorted_wrt (<) (map fst (foundFilesByKeyword (foldl (scan_entry v kws) st entries)))"
    by (rule sorted_scan_entries) (simp add: assms)
  show "sorted_wrt (<) (map fst (expected_index v kws entries))"
    by (rule sorted_expected_index)
  show "map_of (foundFilesByKeyword (foldl (scan_entry v kws) st entries)) =
        map_of (expected_index v kws entries)"
    by (rule ext) (simp add: map_of_scan_entries [OF assms] map_of_expected_index)
qed

section \<open>Argument parsing\<close>

text \<open>
  The loop of \<open>main\<close> over the tokens agrees with the pair-by-pair reading of the
  grammar, from any state in which no flag is waiting for its name.
\<close>

lemma parse_tokens:
  "\<not> outputFlagFound st \<Longrightarrow>
   foldl parse_arg st toks =
     st\<lparr>outputFileName :=
          (if output_names toks = [] then outputFileName st else last (output_names toks)),
        keywords := keywords st @ keyword_tokens toks,
        outputFlagFound := dangling_flag toks\<rparr>"
proof (induction toks arbitrary: st rule: keyword_tokens.induct)
  case (1 t n rest)
  show ?case
  proof (cases "is_output_flag t")
    case True
    let ?st = "st\<lparr>outputFileName := n, outputFlagFound := False\<rparr>"
    have "foldl parse_arg st (t # n # rest) = foldl parse_arg ?st rest"
      using True "1.prems" by (simp add: parse_arg_def is_output_flag_def)
    also have "\<dots> = ?st\<lparr>outputFileName :=
          (if output_names rest = [] then n else last (output_names rest)),
        keywords := keywords st @ keyword_tokens rest,
        outputFlagFound := dangling_flag rest\<rparr>"
      using "1.IH"(1) [OF True, of ?st] by simp
    finally show ?thesis using True by simp
  next
    case False
    then have "foldl parse_arg st (t # n # rest) =
        foldl parse_arg (st\<lparr>keywords := keywords st @ [t]\<rparr>) (n # rest)"
      using "1.prems" by (simp add: parse_arg_def is_output_flag_def)
    then show ?thesis
      using "1.IH"(2) [OF False, of "st\<lparr>keywords := keywords st @ [t]\<rparr>"] "1.prems" False
      by simp
  qed
next
  case (2 t)
  then show ?case by (simp add: parse_arg_def is_output_flag_def)
next
  case 3
  then show ?case by simp
qed

lemma parse_args_tokens:
  "parse_args (dir # toks) =
     \<lparr>scanDirectory = dir,
      outputFileName = (if output_names toks = [] then ''output.txt'' else last (output_names toks)),
      keywords = keyword_tokens toks,
      outputFlagFound = dangling_flag toks\<rparr>"
  by (simp add: parse_args_def parse_init_def parse_tokens)

lemma no_flag_tokens:
  "\<forall>t\<in>set toks. \<not> is_output_flag t \<Longrightarrow>
   output_names toks = [] \<and> keyword_tokens toks = toks \<and> \<not> dangling_flag toks"
  by (induction toks rule: keyword_tokens.induct) simp_all

subsection \<open>C5: the output flag and its name\<close>

text \<open>
  C5, as stated, says that after every token equal to \<open>/o\<close> or \<open>/O\<close> the next
  token is taken as the output path and kept out of the keywords. The loop tests the
  pending flag before it looks at the token, so a second \<open>/o\<close> right after a first one
  is itself the output path, and the token after it is a keyword.
\<close>

theorem output_flag_counterexample:
  "keywords (parse_args [''./site'', ''/o'', ''/o'', ''form'']) = [''form'']
   \<and> outputFileName (parse_args [''./site'', ''/o'', ''/o'', ''form'']) = ''/o''"
  by (simp add: parse_args_def parse_init_def parse_arg_def)

text \<open>
  C5, amended: when the loop reaches a token \<open>/o\<close> or \<open>/O\<close> with no flag pending
  (the tokens \<open>pre\<close> before it leave none), the next token \<open>n\<close> is the output path
  unless a later pair replaces it, and \<open>n\<close> is not among the keywords; when there are
  several pairs the output path is the name of the last one; when there is no pair the
  output path is \<open>output.txt\<close>, which is the case in particular when no token is a flag,
  and then every token is a keyword.
\<close>

theorem output_flag_pairs:
  "(is_output_flag f \<and> \<not> dangling_flag pre \<longrightarrow>
      outputFileName (parse_args (dir # pre @ f # n # rest)) =
        (if output_names rest = [] then n else last (output_names rest))
      \<and> keywords (parse_args (dir # pre @ f # n # rest)) =
          keyword_tokens pre @ keyword_tokens rest)
   \<and> (output_names toks \<noteq> [] \<longrightarrow>
        outputFileName (parse_args (dir # toks)) = last (output_names toks))
   \<and> (output_names toks = [] \<longrightarrow>
        outputFileName (parse_args (dir # toks)) = ''output.txt'')
   \<and> ((\<forall>t\<in>set toks. \<not> is_output_flag t) \<longrightarrow>
        output_names toks = [] \<and> keywords (parse_args (dir # toks)) = toks)"
proof (intro conjI impI)
  assume a: "is_output_flag f \<and> \<not> dangling_flag pre"
  let ?st = "foldl parse_arg (parse_init\<lparr>scanDirectory := dir\<rparr>) pre"
  have pre: "?st = \<lparr>scanDirectory = dir,
      outputFileName = (if output_names pre = [] then ''output.txt'' else last (output_names pre)),
      keywords = keyword_tokens pre, outputFlagFound = False\<rparr>"
    using a by (simp add: parse_init_def parse_tokens)
  have "parse_args (dir # pre @ f # n # rest) = foldl parse_arg ?st (f # n # rest)"
    by (simp add: parse_args_def)
  also have "\<dots> = foldl parse_arg (?st\<lparr>outputFileName := n, outputFlagFound := False\<rparr>) rest"
    using a by (simp add: pre parse_arg_def is_output_flag_def)
  finally have eq: "parse_args (dir # pre @ f # n # rest) =
      foldl parse_arg (?st\<lparr>outputFileName := n, outputFlagFound := False\<rparr>) rest" .
  show "outputFileName (parse_args (dir # pre @ f # n # rest)) =
        (if output_names rest = [] then n else last (output_names rest))"
    by (simp add: eq pre parse_tokens)
  show "keywords (parse_args (dir # pre @ f # n # rest)) = keyword_tokens pre @ keyword_tokens rest"
    by (simp add: eq pre parse_tokens)
next
  assume "output_names toks \<noteq> []"
  then show "outputFileName (parse_args (dir # toks)) = last (output_names toks)"
    by (simp add: parse_args_tokens)
next
  assume "output_names toks = []"
  then show "outputFileName (parse_args (dir # toks)) = ''output.txt''"
    by (simp add: parse_args_tokens)
next
  assume n: "\<forall>t\<in>set toks. \<not> is_output_flag t"
  show "output_names toks = []"
    using no_flag_tokens [OF n] by simp
  show "keywords (parse_args (dir # toks)) = toks"
    using no_flag_tokens [OF n] by (simp add: parse_args_tokens)
qed

theorem output_flag_pairs_witness:
  "outputFileName (parse_args [''./site'', ''form'', ''/o'', ''a.txt'', ''gallery'', ''/O'', ''b.txt'', ''table'']) = ''b.txt''
   \<and> keywords (parse_args [''./site'', ''form'', ''/o'', ''a.txt'', ''gallery'', ''/O'', ''b.txt'', ''table''])
       = [''form'', ''gallery'', ''table'']
   \<and> output_names [''form'', ''/o'', ''a.txt'', ''gallery'', ''/O'', ''b.txt'', ''table'']
       = [''a.txt'', ''b.txt'']
   \<and> output_names [''form'', ''/o''] = []
   \<and> outputFileName (parse_args [''./site'', ''form'', ''/o'']) = ''output.txt''
   \<and> outputFileName (parse_args [''./site'', ''form'', ''gallery'']) = ''output.txt''
   \<and> keywords (parse_args [''./site'', ''form'', ''gallery'']) = [''form'', ''gallery'']"
proof -
  have n: "output_names [''form'', ''/o'', ''a.txt'', ''gallery'', ''/O'', ''b.txt'', ''table'']
       = [''a.txt'', ''b.txt'']"
    "output_names [''form'', ''/o''] = []"
    by (simp_all add: is_output_flag_def)
  show ?thesis
    using output_flag_pairs [of "''/o''" "[''form'']" "''./site''" "''a.txt''"
        "[''gallery'', ''/O'', ''b.txt'', ''table'']" "[''form'', ''/o'']"]
      output_flag_pairs [of "''/o''" "[''form'']" "''./site''" "''a.txt''"
        "[''gallery'', ''/O'', ''b.txt'', ''table'']" "[''form'', ''gallery'']"]
      n
    by (simp add: is_output_flag_def)
qed

section \<open>Runs of \<open>main\<close>\<close>

lemma index_scan:
  "foundFilesByKeyword (scan v kws st (entries, failure)) =
     foundFilesByKeyword (foldl (scan_entry v kws) st entries)"
  by (simp add: scan_def Let_def split: option.splits fs_exception.splits)

text \<open>
  A run whose arguments pass the checks scans the tree and then opens the output file;
  the report is written from the index the scan built.
\<close>

lemma main_accepted:
  assumes "accepted h args"
    and "recursive_directory_iterator h (scanDirectory (parse_args args)) = (entries, failure)"
  shows "output_file (main v h prog args) =
           (if ofstream_opens h (outputFileName (parse_args args))
            then Some (outputFileName (parse_args args),
                       write_report (absolute h (scanDirectory (parse_args args)))
                         (expected_index v (keywords (parse_args args)) entries))
            else None)"
    and "exit_code (main v h prog args) =
           (if ofstream_opens h (outputFileName (parse_args args)) then 0 else 1)"
  using assms
  by (simp_all add: main_def accepted_def Let_def index_scan scan_entries_index)

lemma main_rejected:
  assumes "\<not> accepted h args"
  shows "output_file (main v h prog args) = None" and "exit_code (main v h prog args) = 1"
  using assms by (auto simp: main_def accepted_def Let_def)

subsection \<open>C4: a lone \<open>/o\<close> after the directory\<close>

text \<open>
  C4, as stated, says that \<open>app ./site /o\<close> reports the error of the flag without a
  filename. \<open>main\<close> checks that there are keywords before it checks the pending flag, and
  this command line has none: the error reported is the one for missing keywords.
\<close>

theorem lone_flag_counterexample:
  "stderr (main CaseInsensitive site_host ''app'' [''./site'', ''/o'']) =
     ''Error: No keywords were provided.'' # PrintUsage ''app''
   \<and> ''Error: /o flag specified without a filename.''
       \<notin> set (stderr (main CaseInsensitive site_host ''app'' [''./site'', ''/o'']))"
  by (simp add: main_def parse_args_def parse_init_def parse_arg_def site_host_def
      PrintUsage_def quoted_def)

text \<open>
  C4, amended: with \<open>./site\<close> an existing directory, \<open>app ./site /o\<close> ends with exit code 1,
  reports that no keywords were provided, and writes no file; the error of the flag
  without a filename is the one reported once a keyword is there, as for
  \<open>app ./site form /o\<close>.
\<close>

theorem lone_flag_reports_no_keywords:
  assumes "is_directory h ''./site''"
  shows "main v h ''app'' [''./site'', ''/o''] =
           \<lparr>exit_code = 1, stdout = [],
            stderr = ''Error: No keywords were provided.'' # PrintUsage ''app'',
            output_file = None\<rparr>
         \<and> main v h ''app'' [''./site'', ''form'', ''/o''] =
           \<lparr>exit_code = 1, stdout = [],
            stderr = ''Error: /o flag specified without a filename.'' # PrintUsage ''app'',
            output_file = None\<rparr>"
  using assms by (simp add: main_def parse_args_def parse_init_def parse_arg_def)

theorem lone_flag_reports_no_keywords_witness:
  "is_directory site_host ''./site''
   \<and> exit_code (main CaseInsensitive site_host ''app'' [''./site'', ''/o'']) = 1
   \<and> hd (stderr (main CaseInsensitive site_host ''app'' [''./site'', ''/o''])) =
       ''Error: No keywords were provided.''
   \<and> hd (stderr (main CaseInsensitive site_host ''app'' [''./site'', ''form'', ''/o''])) =
       ''Error: /o flag specified without a filename.''"
proof -
  have d: "is_directory site_host ''./site''" by (simp add: site_host_def)
  show ?thesis
    using d lone_flag_reports_no_keywords [OF d, of CaseInsensitive] by simp
qed

subsection \<open>C7: the output file cannot be opened\<close>

text \<open>
  C7: when the arguments pass the checks and the output file cannot be opened after the
  scan, the run ends with exit code 1, its last diagnostic names the output file, and no
  file is written.
\<close>

theorem output_unopenable:
  assumes "accepted h args"
    and "\<not> ofstream_opens h (outputFileName (parse_args args))"
  shows "exit_code (main v h prog args) = 1
         \<and> output_file (main v h prog args) = None
         \<and> last (stderr (main v h prog args)) =
             ''Error: Could not open output file for writing: '' @ outputFileName (parse_args args)"
  using assms by (simp add: main_def accepted_def Let_def)

theorem output_unopenable_witness:
  "accepted site_host [''./site'', ''form'', ''/o'', ''/readonly/out.txt'']
   \<and> \<not> ofstream_opens site_host ''/readonly/out.txt''
   \<and> exit_code (main CaseInsensitive site_host ''app''
         [''./site'', ''form'', ''/o'', ''/readonly/out.txt'']) = 1
   \<and> output_file (main CaseInsensitive site_host ''app''
         [''./site'', ''form'', ''/o'', ''/readonly/out.txt'']) = None
   \<and> last (stderr (main CaseInsensitive site_host ''app''
         [''./site'', ''form'', ''/o'', ''/readonly/out.txt''])) =
       ''Error: Could not open output file for writing: /readonly/out.txt''"
proof -
  have p: "parse_args [''./site'', ''form'', ''/o'', ''/readonly/out.txt''] =
      \<lparr>scanDirectory = ''./site'', outputFileName = ''/readonly/out.txt'',
       keywords = [''form''], outputFlagFound = False\<rparr>"
    by (simp add: parse_args_def parse_init_def parse_arg_def)
  have a: "accepted site_host [''./site'', ''form'', ''/o'', ''/readonly/out.txt'']"
    by (simp add: accepted_def p site_host_def)
  have o: "\<not> ofstream_opens site_host
      (outputFileName (parse_args [''./site'', ''form'', ''/o'', ''/readonly/out.txt'']))"
    by (simp add: p site_host_def)
  show ?thesis
    using a o output_unopenable [OF a o, of CaseInsensitive "''app''"] by (simp add: p)
qed

section \<open>What the scanner records\<close>

lemma files_under_scan:
  assumes "foundFilesByKeyword st = []"
  shows "files_under (foundFilesByKeyword (scan v kws st (entries, failure))) k =
           (if k \<in> set kws then files_containing v entries k else [])"
  by (simp add: index_scan scan_entries_index [OF assms] files_under_def map_of_expected_index)

lemma file_matches_insensitive:
  "file_matches CaseInsensitive e k \<longleftrightarrow>
     (\<exists>chars. content e = Some chars
        \<and> (\<exists>l\<in>set (getlines chars). sublist (ToLower k) (ToLower l)))"
  by (simp add: file_matches_def list_ex_iff getlines_file_lines ToLower_ascii
      split: option.splits)

lemma file_matches_lower:
  "file_matches CaseInsensitive e k \<longleftrightarrow>
     (\<exists>chars. content e = Some chars
        \<and> (\<exists>l\<in>set (file_lines chars). sublist (map ascii_lower k) (map ascii_lower l)))"
  by (simp add: file_matches_def list_ex_iff split: option.splits)

subsection \<open>C1: a file is recorded under a keyword exactly when a line contains it\<close>

text \<open>
  C1: after a scan that started with an empty index, and for every keyword \<open>k\<close> of the
  run, a path \<open>p\<close> is listed under \<open>k\<close> if and only if the traversal surfaced a candidate
  file with path \<open>p\<close> that opened and one of whose lines (the pieces of its text between
  newlines), folded to ASCII lower case, contains \<open>k\<close> folded to ASCII lower case as a
  substring. In particular the keyword \<open>FORM\<close> is found in the line \<open><form>\<close>, while
  \<open>FORMS\<close> is not, and \<open>FORM\<close> is not found in \<open><from>\<close>.
\<close>

theorem recorded_iff_line_contains:
  assumes "foundFilesByKeyword st = []" and "k \<in> set kws"
  shows "(p \<in> set (files_under
                     (foundFilesByKeyword (scan CaseInsensitive kws st (entries, failure))) k)
          \<longleftrightarrow> (\<exists>e\<in>set entries. path e = p \<and> html_candidate e
                \<and> (\<exists>chars. content e = Some chars
                      \<and> (\<exists>l\<in>set (file_lines chars).
                            sublist (map ascii_lower k) (map ascii_lower l)))))
         \<and> line_contains CaseInsensitive ''<form>'' ''FORM''
         \<and> \<not> line_contains CaseInsensitive ''<form>'' ''FORMS''
         \<and> \<not> line_contains CaseInsensitive ''<from>'' ''FORM''"
proof (intro conjI)
  show "p \<in> set (files_under
                     (foundFilesByKeyword (scan CaseInsensitive kws st (entries, failure))) k)
          \<longleftrightarrow> (\<exists>e\<in>set entries. path e = p \<and> html_candidate e
                \<and> (\<exists>chars. content e = Some chars
                      \<and> (\<exists>l\<in>set (file_lines chars).
                            sublist (map ascii_lower k) (map ascii_lower l))))"
    using assms(2)
    by (auto simp: files_under_scan [OF assms(1)] files_containing_def file_matches_lower)
  have "sublist (map ascii_lower ''FORM'') (map ascii_lower ''<form>'')"
    by code_simp
  then show "line_contains CaseInsensitive ''<form>'' ''FORM''"
    by (simp add: line_contains_keyword_in_line del: line_contains.simps)
  have "\<not> sublist (map ascii_lower ''FORMS'') (map ascii_lower ''<form>'')"
    by code_simp
  then show "\<not> line_contains CaseInsensitive ''<form>'' ''FORMS''"
    by (simp add: line_contains_keyword_in_line del: line_contains.simps)
  have "\<not> sublist (map ascii_lower ''FORM'') (map ascii_lower ''<from>'')"
    by code_simp
  then show "\<not> line_contains CaseInsensitive ''<from>'' ''FORM''"
    by (simp add: line_contains_keyword_in_line del: line_contains.simps)
qed

theorem recorded_iff_line_contains_witness:
  "''./site/INDEX.html'' \<in> set (files_under
      (foundFilesByKeyword
         (scan CaseInsensitive [''FORM'', ''table'', ''o\<newline>r'']
            \<lparr>foundFilesByKeyword = [], cout = [], cerr = []\<rparr>
            ([\<lparr>path = ''./site/INDEX.html'', is_regular_file = True,
               content = Some ''<html>\<newline><form>\<newline>''\<rparr>,
              \<lparr>path = ''./site/split.html'', is_regular_file = True,
               content = Some ''<fo\<newline>rm>''\<rparr>], None)))
      ''FORM'')
   \<and> ''./site/INDEX.html'' \<notin> set (files_under
      (foundFilesByKeyword
         (scan CaseInsensitive [''FORM'', ''table'', ''o\<newline>r'']
            \<lparr>foundFilesByKeyword = [], cout = [], cerr = []\<rparr>
            ([\<lparr>path = ''./site/INDEX.html'', is_regular_file = True,
               content = Some ''<html>\<newline><form>\<newline>''\<rparr>,
              \<lparr>path = ''./site/split.html'', is_regular_file = True,
               content = Some ''<fo\<newline>rm>''\<rparr>], None)))
      ''table'')
   \<and> ''./site/split.html'' \<notin> set (files_under
      (foundFilesByKeyword
         (scan CaseInsensitive [''FORM'', ''table'', ''o\<newline>r'']
            \<lparr>foundFilesByKeyword = [], cout = [], cerr = []\<rparr>
            ([\<lparr>path = ''./site/INDEX.html'', is_regular_file = True,
               content = Some ''<html>\<newline><form>\<newline>''\<rparr>,
              \<lparr>path = ''./site/split.html'', is_regular_file = True,
               content = Some ''<fo\<newline>rm>''\<rparr>], None)))
      ''FORM'')
   \<and> ''./site/split.html'' \<notin> set (files_under
      (foundFilesByKeyword
         (scan CaseInsensitive [''FORM'', ''table'', ''o\<newline>r'']
            \<lparr>foundFilesByKeyword = [], cout = [], cerr = []\<rparr>
            ([\<lparr>path = ''./site/INDEX.html'', is_regular_file = True,
               content = Some ''<html>\<newline><form>\<newline>''\<rparr>,
              \<lparr>path = ''./site/split.html'', is_regular_file = True,
               content = Some ''<fo\<newline>rm>''\<rparr>], None)))
      ''o\<newline>r'')"
proof -
  let ?e = "\<lparr>path = ''./site/INDEX.html'', is_regular_file = True,
               content = Some ''<html>\<newline><form>\<newline>''\<rparr>"
  let ?s = "\<lparr>path = ''./site/split.html'', is_regular_file = True,
               content = Some ''<fo\<newline>rm>''\<rparr>"
  let ?st = "\<lparr>foundFilesByKeyword = [], cout = [], cerr = []\<rparr>"
  have c: "html_candidate ?e" "html_candidate ?s"
    by (simp_all add: html_candidate_def extension_def filename_def)
  have g: "file_lines ''<html>\<newline><form>\<newline>'' = [''<html>'', ''<form>'']"
    "file_lines ''<fo\<newline>rm>'' = [''<fo'', ''rm>'']"
    by (simp_all add: file_lines_def)
  have s: "sublist (map ascii_lower ''FORM'') (map ascii_lower ''<form>'')"
    "\<not> sublist (map ascii_lower ''FORM'') (map ascii_lower ''<html>'')"
    "\<not> sublist (map ascii_lower ''FORM'') (map ascii_lower ''<fo'')"
    "\<not> sublist (map ascii_lower ''FORM'') (map ascii_lower ''rm>'')"
    "\<not> sublist (map ascii_lower ''table'') (map ascii_lower ''<html>'')"
    "\<not> sublist (map ascii_lower ''table'') (map ascii_lower ''<form>'')"
    "\<not> sublist (map ascii_lower ''o\<newline>r'') (map ascii_lower ''<fo'')"
    "\<not> sublist (map ascii_lower ''o\<newline>r'') (map ascii_lower ''rm>'')"
    by code_simp+
  note t = recorded_iff_line_contains [of ?st _ "[''FORM'', ''table'', ''o\<newline>r'']" _ "[?e, ?s]" None,
      THEN conjunct1]
  show ?thesis
    using t [of "''FORM''" "''./site/INDEX.html''"] t [of "''table''" "''./site/INDEX.html''"]
      t [of "''FORM''" "''./site/split.html''"] t [of "''o\<newline>r''" "''./site/split.html''"]
      c g s
    by simp
qed

lemma in_expected_index:
  "(k, fs) \<in> set (expected_index v kws entries) \<longleftrightarrow>
     k \<in> set kws \<and> fs = files_containing v entries k \<and> fs \<noteq> []"
  by (auto simp: expected_index_def)

lemma count_files_containing:
  "count_list (files_containing v entries k) p \<le> count_list (map path entries) p"
  by (induction entries) (simp_all add: files_containing_def)

lemma distinct_files_containing:
  "distinct (map path entries) \<Longrightarrow> distinct (files_containing v entries k)"
  by (simp add: files_containing_def distinct_map_filter)

lemma distinct_keys_expected_index: "distinct (map fst (expected_index v kws entries))"
  using sorted_expected_index [of v kws entries] strict_sorted_iff by blast

subsection \<open>C3: the invariants of the index\<close>

text \<open>
  C3: in the index built from an empty one, every key is a keyword of the run; every
  path listed under a key \<open>k\<close> is the path of a surfaced file that opened and has a line
  whose lower-case form contains \<open>k\<close> in lower case; no key occurs twice; and a path is
  listed under a key at most as often as the traversal surfaced it, however many lines
  contain the keyword, so with a traversal that surfaces every path once no path is
  listed twice under a key.
\<close>

theorem index_invariants:
  assumes "foundFilesByKeyword st = []"
  shows "(\<forall>(k, fs) \<in> set (foundFilesByKeyword (scan CaseInsensitive kws st (entries, failure))).
            k \<in> set kws
            \<and> (\<forall>p\<in>set fs. \<exists>e\<in>set entries. path e = p
                  \<and> (\<exists>chars. content e = Some chars
                        \<and> (\<exists>l\<in>set (getlines chars). sublist (ToLower k) (ToLower l))))
            \<and> (\<forall>p. count_list fs p \<le> count_list (map path entries) p)
            \<and> (distinct (map path entries) \<longrightarrow> distinct fs))
         \<and> distinct (map fst (foundFilesByKeyword (scan CaseInsensitive kws st (entries, failure))))"
proof -
  have idx: "foundFilesByKeyword (scan CaseInsensitive kws st (entries, failure)) =
      expected_index CaseInsensitive kws entries"
    by (simp add: index_scan scan_entries_index [OF assms])
  have "k \<in> set kws
        \<and> (\<forall>p\<in>set fs. \<exists>e\<in>set entries. path e = p
              \<and> (\<exists>chars. content e = Some chars
                    \<and> (\<exists>l\<in>set (getlines chars). sublist (ToLower k) (ToLower l))))
        \<and> (\<forall>p. count_list fs p \<le> count_list (map path entries) p)
        \<and> (distinct (map path entries) \<longrightarrow> distinct fs)"
    if "(k, fs) \<in> set (expected_index CaseInsensitive kws entries)" for k fs
  proof -
    have k: "k \<in> set kws" and fs: "fs = files_containing CaseInsensitive entries k"
      using that by (simp_all add: in_expected_index)
    have "\<exists>e\<in>set entries. path e = p
              \<and> (\<exists>chars. content e = Some chars
                    \<and> (\<exists>l\<in>set (getlines chars). sublist (ToLower k) (ToLower l)))"
      if "p \<in> set fs" for p
      using that by (auto simp: fs files_containing_def file_matches_insensitive)
    then show ?thesis
      using k by (simp add: fs count_files_containing distinct_files_containing)
  qed
  then show ?thesis
    unfolding idx using distinct_keys_expected_index by blast
qed

theorem index_invariants_witness:
  "distinct (map path site_entries)
   \<and> foundFilesByKeyword (scan CaseInsensitive [''form'', ''gallery'', ''form'']
       \<lparr>foundFilesByKeyword = [], cout = [], cerr = []\<rparr> (site_entries, None)) =
     [(''form'', [''./site/sub/b.htm'']),
      (''gallery'', [''./site/a.html'', ''./site/sub/b.htm''])]
   \<and> list_all (\<lambda>(k, fs). k \<in> set [''form'', ''gallery'', ''form''] \<and> distinct fs)
       (foundFilesByKeyword (scan CaseInsensitive [''form'', ''gallery'', ''form'']
          \<lparr>foundFilesByKeyword = [], cout = [], cerr = []\<rparr> (site_entries, None)))
   \<and> distinct (map fst
       (foundFilesByKeyword (scan CaseInsensitive [''form'', ''gallery'', ''form'']
          \<lparr>foundFilesByKeyword = [], cout = [], cerr = []\<rparr> (site_entries, None))))"
proof -
  let ?st = "\<lparr>foundFilesByKeyword = [], cout = [], cerr = []\<rparr>"
  have run: "foundFilesByKeyword (scan CaseInsensitive [''form'', ''gallery'', ''form'']
       ?st (site_entries, None)) =
     [(''form'', [''./site/sub/b.htm'']),
      (''gallery'', [''./site/a.html'', ''./site/sub/b.htm''])]"
    by code_simp
  have d: "distinct (map path site_entries)"
    by (simp add: site_entries_def)
  have e: "foundFilesByKeyword ?st = []"
    by simp
  show ?thesis
    using index_invariants [OF e, of "[''form'', ''gallery'', ''form'']" site_entries None] d run
    by (simp add: list_all_iff)
qed

subsection \<open>C10: the empty keyword\<close>

lemma keyword_in_line_empty: "keyword_in_line v l []"
  by (cases v) simp_all

text \<open>
  C10: the parsing loop appends an empty token to the keywords like any other token, and
  \<open>main\<close> accepts a command line whose only keyword is empty; with the empty keyword
  among the keywords, every candidate file that opens and has at least one line is
  listed under the empty key.
\<close>

theorem empty_keyword_matches:
  "(\<not> outputFlagFound ps \<longrightarrow> parse_arg ps [] = ps\<lparr>keywords := keywords ps @ [[]]\<rparr>)
   \<and> (dir \<noteq> [] \<and> is_directory h dir \<longrightarrow> accepted h [dir, []])
   \<and> (foundFilesByKeyword st = [] \<and> [] \<in> set kws \<and> e \<in> set entries \<and> html_candidate e
        \<and> content e = Some chars \<and> getlines chars \<noteq> []
        \<longrightarrow> path e \<in> set (files_under
                            (foundFilesByKeyword (scan v kws st (entries, failure))) []))"
proof (intro conjI impI)
  assume "\<not> outputFlagFound ps"
  then show "parse_arg ps [] = ps\<lparr>keywords := keywords ps @ [[]]\<rparr>"
    by (simp add: parse_arg_def)
next
  assume "dir \<noteq> [] \<and> is_directory h dir"
  then show "accepted h [dir, []]"
    by (simp add: accepted_def parse_args_def parse_init_def parse_arg_def)
next
  assume a: "foundFilesByKeyword st = [] \<and> [] \<in> set kws \<and> e \<in> set entries \<and> html_candidate e
        \<and> content e = Some chars \<and> getlines chars \<noteq> []"
  then obtain l where "l \<in> set (getlines chars)"
    by (cases "getlines chars") auto
  then have "file_matches v e []"
    using a by (auto simp: file_matches_def list_ex_iff keyword_in_line_empty getlines_file_lines)
  then show "path e \<in> set (files_under
                            (foundFilesByKeyword (scan v kws st (entries, failure))) [])"
    using a by (auto simp: files_under_scan files_containing_def)
qed

theorem empty_keyword_matches_witness:
  "keywords (parse_args [''./site'', '''']) = ['''']
   \<and> accepted site_host [''./site'', '''']
   \<and> ''./site/a.html'' \<in> set (files_under
         (foundFilesByKeyword (scan CaseInsensitive ['''']
            \<lparr>foundFilesByKeyword = [], cout = [], cerr = []\<rparr> (site_entries, None))) '''')"
proof -
  let ?e = "\<lparr>path = ''./site/a.html'', is_regular_file = True,
             content = Some ''<p>gallery</p>\<newline>''\<rparr>"
  let ?st = "\<lparr>foundFilesByKeyword = [], cout = [], cerr = []\<rparr>"
  have p: "keywords (parse_args [''./site'', '''']) = ['''']"
    by (simp add: parse_args_def parse_init_def parse_arg_def)
  have d: "''./site'' \<noteq> [] \<and> is_directory site_host ''./site''"
    by (simp add: site_host_def)
  have c: "html_candidate ?e"
    by (simp add: html_candidate_def extension_def filename_def)
  have g: "getlines ''<p>gallery</p>\<newline>'' \<noteq> []"
    by (simp add: getlines_def)
  have m: "?e \<in> set site_entries"
    by (simp add: site_entries_def)
  show ?thesis
    using empty_keyword_matches [of parse_init "''./site''" site_host ?st "['''']" ?e
        site_entries "''<p>gallery</p>\<newline>''" CaseInsensitive None] p d c g m
    by simp
qed

section \<open>Which entries are scanned\<close>

text \<open>
  The first program announces every file it opens for scanning on standard output; the
  other lines it prints during the traversal start differently.
\<close>

lemma cout_record_found:
  "cout (record_found p st found) =
     cout st @ map (\<lambda>k. ''Found '' @ quoted k @ '' in: '' @ p) found"
  unfolding record_found_def
  by (induction found arbitrary: st) simp_all

lemma cout_scan_entry:
  "cout (scan_entry CaseInsensitive kws st e) =
     cout st @
     (if html_candidate e then
        (''[DEBUG] Scanning file: '' @ path e)
        # (case content e of
             None \<Rightarrow> []
           | Some chars \<Rightarrow>
               map (\<lambda>k. ''Found '' @ quoted k @ '' in: '' @ path e)
                 (keywordsFoundInFile CaseInsensitive kws (getlines chars)))
      else [])"
  by (auto simp: scan_entry_def html_candidate_def cout_record_found Let_def
      split: option.splits)

lemma announced_scan_entry:
  "''[DEBUG] Scanning file: '' @ p \<in> set (cout (scan_entry CaseInsensitive kws st e)) \<longleftrightarrow>
     ''[DEBUG] Scanning file: '' @ p \<in> set (cout st) \<or> (html_candidate e \<and> path e = p)"
  by (auto simp: cout_scan_entry split: option.splits)

lemma announced_scan_entries:
  "''[DEBUG] Scanning file: '' @ p
     \<in> set (cout (foldl (scan_entry CaseInsensitive kws) st entries)) \<longleftrightarrow>
   ''[DEBUG] Scanning file: '' @ p \<in> set (cout st)
     \<or> (\<exists>e\<in>set entries. html_candidate e \<and> path e = p)"
proof (induction entries rule: rev_induct)
  case Nil
  then show ?case by simp
next
  case (snoc e es)
  then show ?case by (simp only: foldl_append foldl.simps announced_scan_entry) auto
qed

lemma cout_scan: "cout (scan v kws st (entries, failure)) = cout (foldl (scan_entry v kws) st entries)"
  by (simp add: scan_def Let_def split: option.splits fs_exception.splits)

lemma skipped_entry:
  "\<not> html_candidate e \<Longrightarrow> scan_entry v kws st e = st"
  by (auto simp: scan_entry_def html_candidate_def)

lemma files_under_scan_entry:
  assumes "sorted_wrt (<) (map fst (foundFilesByKeyword st))"
  shows "files_under (foundFilesByKeyword (scan_entry v kws st e)) k =
           files_under (foundFilesByKeyword st) k
           @ (if k \<in> set kws \<and> html_candidate e \<and> file_matches v e k then [path e] else [])"
  by (simp add: files_under_def map_of_scan_entry [OF assms])

lemma unopenable_entry:
  "html_candidate e \<Longrightarrow> content e = None \<Longrightarrow>
   cerr (scan_entry v kws st e) = cerr st @ [''Warning: Could not open file: '' @ path e]
   \<and> foundFilesByKeyword (scan_entry v kws st e) = foundFilesByKeyword st"
  by (simp add: scan_entry_def html_candidate_def Let_def)

subsection \<open>C6: only regular files with extension \<open>.html\<close> or \<open>.htm\<close>\<close>

text \<open>
  C6: an entry is scanned, that is announced, opened, read line by line and recorded
  under the keywords its lines contain, if and only if it is a regular file whose
  extension is exactly \<open>.html\<close> or \<open>.htm\<close>. In an accepted run of the first program the
  paths announced as being scanned are those of such entries. An entry that is not such
  a file leaves the state of the scan as it was. Such a file that does not open gives the
  warning that names it and adds nothing to the index. Such a file that opens is added
  under exactly the keywords of the run that one of its lines contains in lower case, so
  an entry that opens and has a line with a keyword, and is not yet listed under it,
  becomes listed if and only if it is such a file. An entry whose filename is
  \<open>INDEX.HTML\<close> leaves the state as it was.
\<close>

theorem scanned_iff_html_extension:
  "(accepted h args
      \<and> recursive_directory_iterator h (scanDirectory (parse_args args)) = (entries, failure)
      \<longrightarrow> (''[DEBUG] Scanning file: '' @ p \<in> set (stdout (main CaseInsensitive h prog args))
            \<longleftrightarrow> (\<exists>e\<in>set entries. path e = p \<and> is_regular_file e
                   \<and> (extension p = ''.html'' \<or> extension p = ''.htm''))))
   \<and> (\<not> (is_regular_file e
           \<and> (extension (path e) = ''.html'' \<or> extension (path e) = ''.htm''))
        \<longrightarrow> scan_entry v kws st e = st)
   \<and> (is_regular_file e
        \<and> (extension (path e) = ''.html'' \<or> extension (path e) = ''.htm'')
        \<and> content e = None
        \<longrightarrow> cerr (scan_entry v kws st e) =
              cerr st @ [''Warning: Could not open file: '' @ path e]
            \<and> foundFilesByKeyword (scan_entry v kws st e) = foundFilesByKeyword st)
   \<and> (is_regular_file e
        \<and> (extension (path e) = ''.html'' \<or> extension (path e) = ''.htm'')
        \<and> content e = Some chars
        \<and> sorted_wrt (<) (map fst (foundFilesByKeyword st))
        \<longrightarrow> files_under (foundFilesByKeyword (scan_entry CaseInsensitive kws st e)) k =
              files_under (foundFilesByKeyword st) k
              @ (if k \<in> set kws
                    \<and> (\<exists>l\<in>set (file_lines chars).
                          sublist (map ascii_lower k) (map ascii_lower l))
                 then [path e] else []))
   \<and> (content e = Some chars \<and> k \<in> set kws
        \<and> (\<exists>l\<in>set (file_lines chars). sublist (map ascii_lower k) (map ascii_lower l))
        \<and> sorted_wrt (<) (map fst (foundFilesByKeyword st))
        \<and> path e \<notin> set (files_under (foundFilesByKeyword st) k)
        \<longrightarrow> (path e \<in> set (files_under
                              (foundFilesByKeyword (scan_entry CaseInsensitive kws st e)) k)
              \<longleftrightarrow> is_regular_file e
                  \<and> (extension (path e) = ''.html'' \<or> extension (path e) = ''.htm'')))
   \<and> (filename (path e) = ''INDEX.HTML'' \<longrightarrow> scan_entry v kws st e = st)"
proof (intro conjI impI)
  assume a: "accepted h args
      \<and> recursive_directory_iterator h (scanDirectory (parse_args args)) = (entries, failure)"
  let ?cfg = "parse_args args"
  let ?st = "scan CaseInsensitive (keywords ?cfg)
               \<lparr>foundFilesByKeyword = [], cout = banner CaseInsensitive h ?cfg, cerr = []\<rparr>
               (entries, failure)"
  have out: "stdout (main CaseInsensitive h prog args) =
      cout ?st @ (if ofstream_opens h (outputFileName ?cfg)
                  then [''\<newline>Scan complete. Results saved to '' @ outputFileName ?cfg] else [])"
    using a by (simp add: main_def accepted_def Let_def)
  have ban: "''[DEBUG] Scanning file: '' @ p \<notin> set (banner CaseInsensitive h ?cfg)"
    by (simp add: banner_def)
  have fin: "''[DEBUG] Scanning file: '' @ p
      \<notin> set (if ofstream_opens h (outputFileName ?cfg)
               then [''\<newline>Scan complete. Results saved to '' @ outputFileName ?cfg] else [])"
    by simp
  have "''[DEBUG] Scanning file: '' @ p \<in> set (cout ?st) \<longleftrightarrow>
      ''[DEBUG] Scanning file: '' @ p \<in> set (banner CaseInsensitive h ?cfg)
      \<or> (\<exists>e\<in>set entries. html_candidate e \<and> path e = p)"
    unfolding cout_scan announced_scan_entries by simp
  then have "''[DEBUG] Scanning file: '' @ p \<in> set (cout ?st) \<longleftrightarrow>
      (\<exists>e\<in>set entries. html_candidate e \<and> path e = p)"
    using ban by blast
  then have "''[DEBUG] Scanning file: '' @ p \<in> set (stdout (main CaseInsensitive h prog args))
      \<longleftrightarrow> (\<exists>e\<in>set entries. html_candidate e \<and> path e = p)"
    unfolding out set_append Un_iff using fin by blast
  then show "''[DEBUG] Scanning file: '' @ p \<in> set (stdout (main CaseInsensitive h prog args))
            \<longleftrightarrow> (\<exists>e\<in>set entries. path e = p \<and> is_regular_file e
                   \<and> (extension p = ''.html'' \<or> extension p = ''.htm''))"
    unfolding html_candidate_def by blast
next
  assume "\<not> (is_regular_file e
           \<and> (extension (path e) = ''.html'' \<or> extension (path e) = ''.htm''))"
  then show "scan_entry v kws st e = st"
    by (simp add: skipped_entry html_candidate_def)
next
  assume a: "is_regular_file e
        \<and> (extension (path e) = ''.html'' \<or> extension (path e) = ''.htm'')
        \<and> content e = None"
  then have "html_candidate e" and "content e = None"
    by (simp_all add: html_candidate_def)
  then show "cerr (scan_entry v kws st e) =
              cerr st @ [''Warning: Could not open file: '' @ path e]"
    and "foundFilesByKeyword (scan_entry v kws st e) = foundFilesByKeyword st"
    using unopenable_entry [of e v kws st] by blast+
next
  assume a: "is_regular_file e
        \<and> (extension (path e) = ''.html'' \<or> extension (path e) = ''.htm'')
        \<and> content e = Some chars
        \<and> sorted_wrt (<) (map fst (foundFilesByKeyword st))"
  then have c: "html_candidate e"
    by (simp add: html_candidate_def)
  from a have s: "sorted_wrt (<) (map fst (foundFilesByKeyword st))"
    by simp
  show "files_under (foundFilesByKeyword (scan_entry CaseInsensitive kws st e)) k =
              files_under (foundFilesByKeyword st) k
              @ (if k \<in> set kws
                    \<and> (\<exists>l\<in>set (file_lines chars).
                          sublist (map ascii_lower k) (map ascii_lower l))
                 then [path e] else [])"
    using a c by (simp add: files_under_scan_entry [OF s] file_matches_lower)
next
  assume a: "content e = Some chars \<and> k \<in> set kws
        \<and> (\<exists>l\<in>set (file_lines chars). sublist (map ascii_lower k) (map ascii_lower l))
        \<and> sorted_wrt (<) (map fst (foundFilesByKeyword st))
        \<and> path e \<notin> set (files_under (foundFilesByKeyword st) k)"
  then have s: "sorted_wrt (<) (map fst (foundFilesByKeyword st))"
    by simp
  from a have m: "file_matches CaseInsensitive e k"
    by (auto simp: file_matches_lower)
  show "path e \<in> set (files_under
                              (foundFilesByKeyword (scan_entry CaseInsensitive kws st e)) k)
              \<longleftrightarrow> is_regular_file e
                  \<and> (extension (path e) = ''.html'' \<or> extension (path e) = ''.htm'')"
    using a m by (simp add: files_under_scan_entry [OF s] html_candidate_def)
next
  assume "filename (path e) = ''INDEX.HTML''"
  then have "extension (path e) = ''.HTML''"
    by (simp add: extension_def)
  then show "scan_entry v kws st e = st"
    by (simp add: skipped_entry html_candidate_def)
qed

theorem scanned_iff_html_extension_witness:
  "accepted site_host [''./site'', ''form'']
   \<and> ''[DEBUG] Scanning file: ./site/sub/b.htm''
       \<in> set (stdout (main CaseInsensitive site_host ''app'' [''./site'', ''form'']))
   \<and> ''[DEBUG] Scanning file: ./site/INDEX.HTML''
       \<notin> set (stdout (main CaseInsensitive site_host ''app'' [''./site'', ''form'']))
   \<and> ''[DEBUG] Scanning file: ./site/c.txt''
       \<notin> set (stdout (main CaseInsensitive site_host ''app'' [''./site'', ''form'']))
   \<and> filename ''./site/INDEX.HTML'' = ''INDEX.HTML''
   \<and> map extension [''./site/sub/b.htm'', ''./site/INDEX.HTML'', ''./site/c.txt'',
         ''./site/a.html'', ''./site/sub'', ''./site/locked.html''] =
       [''.htm'', ''.HTML'', ''.txt'', ''.html'', [], ''.html'']
   \<and> map extension [''./site/.html'', ''./site.html/readme'', ''./site/a.html.bak'',
         ''./site/a.htmlx'', ''./site/html''] =
       [[], [], ''.bak'', ''.htmlx'', []]
   \<and> foundFilesByKeyword
         (scan CaseInsensitive [''form''] \<lparr>foundFilesByKeyword = [], cout = [], cerr = []\<rparr>
            (site_entries, None)) = [(''form'', [''./site/sub/b.htm''])]
   \<and> stderr (main CaseInsensitive site_host ''app'' [''./site'', ''form'']) =
       [''Warning: Could not open file: ./site/locked.html'']"
proof -
  have p: "parse_args [''./site'', ''form''] =
      \<lparr>scanDirectory = ''./site'', outputFileName = ''output.txt'',
       keywords = [''form''], outputFlagFound = False\<rparr>"
    by (simp add: parse_args_def parse_init_def parse_arg_def)
  have a: "accepted site_host [''./site'', ''form'']"
    by (simp add: accepted_def p site_host_def)
  have w: "recursive_directory_iterator site_host
             (scanDirectory (parse_args [''./site'', ''form''])) = (site_entries, None)"
    by (simp add: site_host_def)
  have x: "map extension [''./site/sub/b.htm'', ''./site/INDEX.HTML'', ''./site/c.txt'',
             ''./site/a.html'', ''./site/sub'', ''./site/locked.html''] =
           [''.htm'', ''.HTML'', ''.txt'', ''.html'', [], ''.html'']"
    by (simp add: extension_def filename_def)
  have f: "filename ''./site/INDEX.HTML'' = ''INDEX.HTML''"
    by (simp add: filename_def)
  have y: "map extension [''./site/.html'', ''./site.html/readme'', ''./site/a.html.bak'',
         ''./site/a.htmlx'', ''./site/html''] =
       [[], [], ''.bak'', ''.htmlx'', []]"
    by (simp add: extension_def filename_def)
  have i: "foundFilesByKeyword
         (scan CaseInsensitive [''form''] \<lparr>foundFilesByKeyword = [], cout = [], cerr = []\<rparr>
            (site_entries, None)) = [(''form'', [''./site/sub/b.htm''])]"
    by code_simp
  have e: "stderr (main CaseInsensitive site_host ''app'' [''./site'', ''form'']) =
       [''Warning: Could not open file: ./site/locked.html'']"
    by code_simp
  note t = scanned_iff_html_extension [of site_host "[''./site'', ''form'']" site_entries None _
      "''app''", THEN conjunct1, rule_format, OF conjI [OF a w]]
  show ?thesis
    using a f x y i e t [of "''./site/sub/b.htm''"] t [of "''./site/INDEX.HTML''"]
      t [of "''./site/c.txt''"]
    by (simp add: site_entries_def)
qed

section \<open>The report\<close>

lemma terminated_lines_append:
  "terminated_lines (xs @ ys) = terminated_lines xs @ terminated_lines ys"
  by (simp add: terminated_lines_def)

lemma fifty_equals_signs:
  "replicate 50 CHR ''='' = ''==================================================''"
  by (simp add: numeral_eq_Suc)

lemma report_section_lines:
  "report_section (keyword, files) =
     terminated_lines
       (['''', replicate 50 CHR ''='',
         ''Files containing keyword: '' @ [CHR 0x22] @ keyword @ [CHR 0x22],
         replicate 50 CHR ''=''] @ files)"
  by (simp add: report_section_def terminated_lines_def fifty_equals_signs endl_def quoted_def)

lemma report_sections_lines:
  "concat (map report_section idx) =
     terminated_lines
       (concat (map (\<lambda>(keyword, files).
                  ['''', replicate 50 CHR ''='',
                   ''Files containing keyword: '' @ [CHR 0x22] @ keyword @ [CHR 0x22],
                   replicate 50 CHR ''=''] @ files) idx))"
proof (induction idx)
  case Nil
  then show ?case by (simp add: terminated_lines_def)
next
  case (Cons a idx)
  obtain keyword files where a: "a = (keyword, files)" by (cases a)
  show ?case
    unfolding a list.map concat.simps prod.case terminated_lines_append
      report_section_lines Cons.IH ..
qed

lemma write_report_lines:
  "write_report absdir idx = terminated_lines (expected_report_lines absdir idx)"
proof (cases "idx = []")
  case True
  then show ?thesis
    by (simp add: write_report_def expected_report_lines_def terminated_lines_def endl_def)
next
  case False
  have "write_report absdir idx =
      terminated_lines [''Scan results for directory: '' @ absdir]
      @ concat (map report_section idx)"
    using False by (simp add: write_report_def terminated_lines_def endl_def)
  also have "\<dots> = terminated_lines (expected_report_lines absdir idx)"
    using False
    by (simp only: report_sections_lines expected_report_lines_def if_False
        terminated_lines_append [symmetric] append_Cons append_Nil)
  finally show ?thesis .
qed

subsection \<open>C2: the format of the report\<close>

text \<open>
  C2: in an accepted run whose output file opens, the file written at the output path
  consists of these lines, each ended by a newline: the line
  \<open>Scan results for directory: \<close> followed by the absolute scan root; then, if no keyword
  matched any file, an empty line and the line saying that no files were found; otherwise,
  for each matched keyword in ascending order, an empty line, fifty \<open>=\<close>, the line
  naming the keyword in double quotes, fifty \<open>=\<close>, and the paths of the candidates that
  contain it, in traversal order.
\<close>

theorem report_format:
  assumes "accepted h args"
    and "ofstream_opens h (outputFileName (parse_args args))"
    and "recursive_directory_iterator h (scanDirectory (parse_args args)) = (entries, failure)"
  shows "output_file (main CaseInsensitive h prog args) =
           Some (outputFileName (parse_args args),
                 terminated_lines
                   (expected_report_lines (absolute h (scanDirectory (parse_args args)))
                      (expected_index CaseInsensitive (keywords (parse_args args)) entries)))
         \<and> sorted_wrt (<)
             (map fst (expected_index CaseInsensitive (keywords (parse_args args)) entries))"
  using main_accepted(1) [OF assms(1,3), of CaseInsensitive prog] assms(2)
  by (simp add: write_report_lines sorted_expected_index)

theorem report_format_witness:
  "accepted site_host [''./site'', ''gallery'', ''form'']
   \<and> output_file (main CaseInsensitive site_host ''app'' [''./site'', ''gallery'', ''form'']) =
       Some (''output.txt'',
             terminated_lines
               [''Scan results for directory: /srv/./site'',
                '''',
                ''=================================================='',
                ''Files containing keyword: '' @ [CHR 0x22] @ ''form'' @ [CHR 0x22],
                ''=================================================='',
                ''./site/sub/b.htm'',
                '''',
                ''=================================================='',
                ''Files containing keyword: '' @ [CHR 0x22] @ ''gallery'' @ [CHR 0x22],
                ''=================================================='',
                ''./site/a.html'',
                ''./site/sub/b.htm''])
   \<and> output_file (main CaseInsensitive site_host ''app'' [''./site'', ''table'']) =
       Some (''output.txt'',
             terminated_lines
               [''Scan results for directory: /srv/./site'',
                '''',
                ''No files were found containing the specified keywords.''])"
proof -
  have p: "parse_args [''./site'', ''gallery'', ''form''] =
      \<lparr>scanDirectory = ''./site'', outputFileName = ''output.txt'',
       keywords = [''gallery'', ''form''], outputFlagFound = False\<rparr>"
    by (simp add: parse_args_def parse_init_def parse_arg_def)
  have a: "accepted site_host [''./site'', ''gallery'', ''form'']"
    by (simp add: accepted_def p site_host_def)
  have o: "ofstream_opens site_host (outputFileName (parse_args [''./site'', ''gallery'', ''form'']))"
    by (simp add: p site_host_def)
  have w: "recursive_directory_iterator site_host
             (scanDirectory (parse_args [''./site'', ''gallery'', ''form''])) = (site_entries, None)"
    by (simp add: site_host_def)
  have "foundFilesByKeyword (foldl (scan_entry CaseInsensitive [''gallery'', ''form''])
        \<lparr>foundFilesByKeyword = [], cout = [], cerr = []\<rparr> site_entries) =
      [(''form'', [''./site/sub/b.htm'']),
       (''gallery'', [''./site/a.html'', ''./site/sub/b.htm''])]"
    by code_simp
  then have i: "expected_index CaseInsensitive [''gallery'', ''form''] site_entries =
      [(''form'', [''./site/sub/b.htm'']),
       (''gallery'', [''./site/a.html'', ''./site/sub/b.htm''])]"
    by (simp add: scan_entries_index)
  have p': "parse_args [''./site'', ''table''] =
      \<lparr>scanDirectory = ''./site'', outputFileName = ''output.txt'',
       keywords = [''table''], outputFlagFound = False\<rparr>"
    by (simp add: parse_args_def parse_init_def parse_arg_def)
  have a': "accepted site_host [''./site'', ''table'']"
    by (simp add: accepted_def p' site_host_def)
  have o': "ofstream_opens site_host (outputFileName (parse_args [''./site'', ''table'']))"
    by (simp add: p' site_host_def)
  have w': "recursive_directory_iterator site_host
             (scanDirectory (parse_args [''./site'', ''table''])) = (site_entries, None)"
    by (simp add: site_host_def)
  have "foundFilesByKeyword (foldl (scan_entry CaseInsensitive [''table''])
        \<lparr>foundFilesByKeyword = [], cout = [], cerr = []\<rparr> site_entries) = []"
    by code_simp
  then have i': "expected_index CaseInsensitive [''table''] site_entries = []"
    by (simp add: scan_entries_index)
  have r: "absolute site_host ''./site'' = ''/srv/./site''"
    by (simp add: site_host_def)
  show ?thesis
    using a report_format [OF a o w, of "''app''"] report_format [OF a' o' w', of "''app''"]
    by (simp add: p p' i i' r expected_report_lines_def fifty_equals_signs)
qed

section \<open>Keyword order and the two variants\<close>

lemma keywords_need_two_args: "keywords (parse_args args) \<noteq> [] \<Longrightarrow> 2 \<le> length args"
  by (cases args rule: keyword_tokens.cases) (simp_all add: parse_args_def parse_init_def)

lemma expected_index_set:
  "set kws' = set kws \<Longrightarrow> expected_index v kws' entries = expected_index v kws entries"
  by (simp add: expected_index_def)

lemma main_output_cases:
  "recursive_directory_iterator h (scanDirectory (parse_args args)) = (entries, failure) \<Longrightarrow>
   output_file (main v h prog args) =
     (if accepted h args \<and> ofstream_opens h (outputFileName (parse_args args))
      then Some (outputFileName (parse_args args),
                 write_report (absolute h (scanDirectory (parse_args args)))
                   (expected_index v (keywords (parse_args args)) entries))
      else None)
   \<and> exit_code (main v h prog args) =
     (if accepted h args \<and> ofstream_opens h (outputFileName (parse_args args)) then 0 else 1)"
  using main_accepted [of h args entries failure v prog] main_rejected [of h args v prog]
  by (cases "accepted h args") simp_all

subsection \<open>C8: the order of the keywords on the command line\<close>

text \<open>
  C8: two command lines that give the same directory and the same output flag and name,
  and whose keyword lists are permutations of each other, end with the same exit code and
  leave the same output file, for every host.
\<close>

theorem keyword_order_irrelevant:
  assumes "scanDirectory (parse_args args') = scanDirectory (parse_args args)"
    and "outputFileName (parse_args args') = outputFileName (parse_args args)"
    and "outputFlagFound (parse_args args') = outputFlagFound (parse_args args)"
    and "mset (keywords (parse_args args')) = mset (keywords (parse_args args))"
  shows "output_file (main CaseInsensitive h prog args') =
           output_file (main CaseInsensitive h prog args)
         \<and> exit_code (main CaseInsensitive h prog args') =
             exit_code (main CaseInsensitive h prog args)"
proof -
  obtain entries failure where
    w: "recursive_directory_iterator h (scanDirectory (parse_args args)) = (entries, failure)"
    by (cases "recursive_directory_iterator h (scanDirectory (parse_args args))")
  have w': "recursive_directory_iterator h (scanDirectory (parse_args args')) = (entries, failure)"
    using w by (simp add: assms(1))
  have s: "set (keywords (parse_args args')) = set (keywords (parse_args args))"
    using assms(4) by (rule mset_eq_setD)
  have e: "keywords (parse_args args') = [] \<longleftrightarrow> keywords (parse_args args) = []"
    using s by (metis set_empty)
  have "2 \<le> length args' \<and> keywords (parse_args args') \<noteq> []
        \<longleftrightarrow> 2 \<le> length args \<and> keywords (parse_args args) \<noteq> []"
    using e keywords_need_two_args [of args] keywords_need_two_args [of args'] by blast
  then have acc: "accepted h args' \<longleftrightarrow> accepted h args"
    unfolding accepted_def assms(1,3) by blast
  show ?thesis
    using main_output_cases [OF w, of CaseInsensitive prog]
      main_output_cases [OF w', of CaseInsensitive prog]
    by (simp add: acc assms(1,2) expected_index_set [OF s])
qed

theorem keyword_order_irrelevant_witness:
  "mset (keywords (parse_args [''./site'', ''gallery'', ''/o'', ''r.txt'', ''form'', ''tab'']))
     = mset (keywords (parse_args [''./site'', ''form'', ''/o'', ''r.txt'', ''tab'', ''gallery'']))
   \<and> keywords (parse_args [''./site'', ''gallery'', ''/o'', ''r.txt'', ''form'', ''tab''])
     \<noteq> keywords (parse_args [''./site'', ''form'', ''/o'', ''r.txt'', ''tab'', ''gallery''])
   \<and> output_file (main CaseInsensitive site_host ''app''
         [''./site'', ''gallery'', ''/o'', ''r.txt'', ''form'', ''tab'']) =
       output_file (main CaseInsensitive site_host ''app''
         [''./site'', ''form'', ''/o'', ''r.txt'', ''tab'', ''gallery''])
   \<and> exit_code (main CaseInsensitive site_host ''app''
         [''./site'', ''form'', ''/o'', ''r.txt'', ''tab'', ''gallery'']) = 0"
proof -
  have p: "parse_args [''./site'', ''gallery'', ''/o'', ''r.txt'', ''form'', ''tab''] =
      \<lparr>scanDirectory = ''./site'', outputFileName = ''r.txt'',
       keywords = [''gallery'', ''form'', ''tab''], outputFlagFound = False\<rparr>"
    by (simp add: parse_args_def parse_init_def parse_arg_def)
  have q: "parse_args [''./site'', ''form'', ''/o'', ''r.txt'', ''tab'', ''gallery''] =
      \<lparr>scanDirectory = ''./site'', outputFileName = ''r.txt'',
       keywords = [''form'', ''tab'', ''gallery''], outputFlagFound = False\<rparr>"
    by (simp add: parse_args_def parse_init_def parse_arg_def)
  have m: "mset [''gallery'', ''form'', ''tab''] = mset [''form'', ''tab'', ''gallery'']"
    by (simp add: add_mset_commute)
  have a: "accepted site_host [''./site'', ''form'', ''/o'', ''r.txt'', ''tab'', ''gallery'']"
    by (simp add: accepted_def q site_host_def)
  have w: "recursive_directory_iterator site_host
       (scanDirectory (parse_args [''./site'', ''form'', ''/o'', ''r.txt'', ''tab'', ''gallery'']))
       = (site_entries, None)"
    by (simp add: site_host_def)
  have x: "exit_code (main CaseInsensitive site_host ''app''
         [''./site'', ''form'', ''/o'', ''r.txt'', ''tab'', ''gallery'']) = 0"
    using main_accepted(2) [OF a w, of CaseInsensitive "''app''"]
    by (simp add: q site_host_def)
  show ?thesis
    using keyword_order_irrelevant
      [of "[''./site'', ''gallery'', ''/o'', ''r.txt'', ''form'', ''tab'']"
          "[''./site'', ''form'', ''/o'', ''r.txt'', ''tab'', ''gallery'']" site_host "''app''"]
      m x
    by (simp add: p q)
qed

subsection \<open>C9: the case-sensitive draft on lower-case input\<close>

lemma file_matches_variants:
  assumes "ToLower k = k"
    and "\<forall>chars. content e = Some chars \<longrightarrow> (\<forall>l\<in>set (getlines chars). ToLower l = l)"
  shows "file_matches CaseSensitiveDraft e k = file_matches CaseInsensitive e k"
  using assms
  by (auto simp: file_matches_def list_ex_iff getlines_file_lines ToLower_ascii
      split: option.splits)

lemma expected_index_variants:
  assumes "\<forall>k\<in>set kws. ToLower k = k"
    and "\<forall>e\<in>set entries. \<forall>chars. content e = Some chars
           \<longrightarrow> (\<forall>l\<in>set (getlines chars). ToLower l = l)"
  shows "expected_index CaseSensitiveDraft kws entries = expected_index CaseInsensitive kws entries"
proof -
  have "files_containing CaseSensitiveDraft entries k = files_containing CaseInsensitive entries k"
    if "k \<in> set kws" for k
    unfolding files_containing_def
    using assms that
    by (intro arg_cong [where f = "map path"] filter_cong refl)
       (simp add: file_matches_variants)
  then show ?thesis
    unfolding expected_index_def
    by (intro map_cong filter_cong refl) simp_all
qed

text \<open>
  C9: when lower-casing changes no keyword of the run and no line of any file the
  traversal surfaces, the draft without \<open>ToLower\<close> and the program with it build the same
  index from an empty one, leave the same output file, and end with the same exit code.
\<close>

theorem variants_agree_on_lower_case:
  assumes "\<forall>k\<in>set (keywords (parse_args args)). ToLower k = k"
    and "recursive_directory_iterator h (scanDirectory (parse_args args)) = (entries, failure)"
    and "\<forall>e\<in>set entries. \<forall>chars. content e = Some chars
           \<longrightarrow> (\<forall>l\<in>set (getlines chars). ToLower l = l)"
  shows "(foundFilesByKeyword st = [] \<and> foundFilesByKeyword st' = [] \<longrightarrow>
            foundFilesByKeyword
              (scan CaseSensitiveDraft (keywords (parse_args args)) st (entries, failure)) =
            foundFilesByKeyword
              (scan CaseInsensitive (keywords (parse_args args)) st' (entries, failure)))
         \<and> output_file (main CaseSensitiveDraft h prog args) =
             output_file (main CaseInsensitive h prog args)
         \<and> exit_code (main CaseSensitiveDraft h prog args) =
             exit_code (main CaseInsensitive h prog args)"
proof -
  note idx = expected_index_variants [OF assms(1,3)]
  show ?thesis
    using main_output_cases [OF assms(2), of CaseSensitiveDraft prog]
      main_output_cases [OF assms(2), of CaseInsensitive prog]
    by (simp add: index_scan scan_entries_index idx)
qed

theorem variants_agree_on_lower_case_witness:
  "keywords (parse_args [''./plain'', ''form'', ''table'']) = [''form'', ''table'']
   \<and> ToLower ''form'' = ''form'' \<and> ToLower ''table'' = ''table''
   \<and> output_file (main CaseSensitiveDraft plain_host ''app'' [''./plain'', ''form'', ''table'']) =
       output_file (main CaseInsensitive plain_host ''app'' [''./plain'', ''form'', ''table''])
   \<and> exit_code (main CaseInsensitive plain_host ''app'' [''./plain'', ''form'', ''table'']) = 0
   \<and> output_file (main CaseSensitiveDraft site_host ''app'' [''./site'', ''gallery''])
       \<noteq> output_file (main CaseInsensitive site_host ''app'' [''./site'', ''gallery''])"
proof -
  let ?es = "[\<lparr>path = ''./plain/index.html'', is_regular_file = True,
               content = Some ''<form>\<newline><p>gallery</p>\<newline>''\<rparr>]"
  have p: "parse_args [''./plain'', ''form'', ''table''] =
      \<lparr>scanDirectory = ''./plain'', outputFileName = ''output.txt'',
       keywords = [''form'', ''table''], outputFlagFound = False\<rparr>"
    by (simp add: parse_args_def parse_init_def parse_arg_def)
  have k: "\<forall>k\<in>set (keywords (parse_args [''./plain'', ''form'', ''table''])). ToLower k = k"
    by (simp add: p ToLower_def tolower_def)
  have w: "recursive_directory_iterator plain_host
             (scanDirectory (parse_args [''./plain'', ''form'', ''table''])) = (?es, None)"
    by (simp add: plain_host_def)
  have l: "\<forall>e\<in>set ?es. \<forall>chars. content e = Some chars
           \<longrightarrow> (\<forall>l\<in>set (getlines chars). ToLower l = l)"
    by (simp add: getlines_def ToLower_def tolower_def)
  have a: "accepted plain_host [''./plain'', ''form'', ''table'']"
    by (simp add: accepted_def p plain_host_def)
  have x: "exit_code (main CaseInsensitive plain_host ''app'' [''./plain'', ''form'', ''table'']) = 0"
    using main_accepted(2) [OF a w, of CaseInsensitive "''app''"]
    by (simp add: p plain_host_def)
  have d: "output_file (main CaseSensitiveDraft site_host ''app'' [''./site'', ''gallery''])
       \<noteq> output_file (main CaseInsensitive site_host ''app'' [''./site'', ''gallery''])"
    by code_simp
  have t: "ToLower ''form'' = ''form'' \<and> ToLower ''table'' = ''table''"
    by (simp add: ToLower_def tolower_def)
  show ?thesis
    using variants_agree_on_lower_case [OF k w l, of _ _ "''app''"] x d t
    by (simp add: p)
qed

end
